theory Spec2Isabelle
  imports Main "HOL-Library.Monad_Syntax"
begin

section \<open>The deque of \<^verbatim>\<open>pkg/deque.go\<close> as a heap program\<close>

text \<open>
  The Go deque is a doubly linked list of heap nodes reached through the \<^verbatim>\<open>head\<close> and
  \<^verbatim>\<open>tail\<close> pointers of a \<^verbatim>\<open>Deque\<close> struct. Its operations assign to the
  \<^verbatim>\<open>next\<close> and \<^verbatim>\<open>prev\<close> fields of nodes that are shared between the two chains,
  so the model keeps an explicit store: a heap is the list of all nodes allocated so far
  and a pointer is \<open>None\<close> (Go's \<^verbatim>\<open>nil\<close>) or \<open>Some a\<close> with \<open>a\<close> an index of the heap.
  Allocation appends to the heap; nothing is ever freed (Go is garbage collected).

  Every operation is a function from the state (heap and \<^verbatim>\<open>Deque\<close> struct) into
  \<open>option\<close>: the value \<open>None\<close> stands for a run that does not return, because it
  dereferences \<^verbatim>\<open>nil\<close> and panics, or because a traversal never reaches \<^verbatim>\<open>nil\<close>.
  Errors that the Go code returns (\<^verbatim>\<open>PopError\<close>, \<^verbatim>\<open>PeekError\<close>) are ordinary result
  values. The mutex is not modelled: each operation is taken as one atomic step.

  Go's \<^verbatim>\<open>int\<close> is modelled by \<open>int\<close>. The only arithmetic of the source that can leave
  the 64-bit range on an input it can receive is the negation in \<^verbatim>\<open>Rotate\<close>, whose
  wrap-around is written out in \<open>neg_int64\<close>; the length counts allocated nodes and
  cannot reach \<open>2^63\<close>. The zero value of the element type \<^verbatim>\<open>T\<close> is the \<open>0\<close> of class
  \<open>zero\<close>.
\<close>

subsection \<open>Nodes, heaps and the Deque struct\<close>

record 'a node =
  node_value :: 'a
  node_next :: "nat option"
  node_prev :: "nat option"

type_synonym 'a heap = "'a node list"

record Deque =
  head :: "nat option"
  tail :: "nat option"
  len :: int
  capacity :: int

type_synonym 'a state = "'a heap \<times> Deque"

datatype err = PopError | PeekError int

text \<open>\<^verbatim>\<open>&node[T]{...}\<close>: a fresh node at the next unused address.\<close>

definition new_node :: "'a heap \<Rightarrow> 'a node \<Rightarrow> nat \<times> 'a heap" where
  "new_node h n = (length h, h @ [n])"

text \<open>Reading a field through a pointer; \<open>None\<close> is the nil-dereference panic.\<close>

definition deref :: "'a heap \<Rightarrow> nat option \<Rightarrow> 'a node option" where
  "deref h p = (case p of None \<Rightarrow> None
     | Some a \<Rightarrow> if a < length h then Some (h ! a) else None)"

text \<open>\<^verbatim>\<open>p.next = q\<close> and \<^verbatim>\<open>p.prev = q\<close>.\<close>

definition set_next :: "nat option \<Rightarrow> nat option \<Rightarrow> 'a heap \<Rightarrow> 'a heap option" where
  "set_next p q h = (case p of None \<Rightarrow> None
     | Some a \<Rightarrow> if a < length h then Some (h[a := (h ! a)\<lparr>node_next := q\<rparr>]) else None)"

definition set_prev :: "nat option \<Rightarrow> nat option \<Rightarrow> 'a heap \<Rightarrow> 'a heap option" where
  "set_prev p q h = (case p of None \<Rightarrow> None
     | Some a \<Rightarrow> if a < length h then Some (h[a := (h ! a)\<lparr>node_prev := q\<rparr>]) else None)"

subsection \<open>Construction and capacity queries\<close>

definition NewDeque :: "int \<Rightarrow> Deque" where
  "NewDeque c = \<lparr>head = None, tail = None, len = 0, capacity = c\<rparr>"

definition NewUnlimitedDeque :: Deque where
  "NewUnlimitedDeque = NewDeque (- 1)"

definition GetLen :: "Deque \<Rightarrow> int" where
  "GetLen d = len d"

definition IsEmpty :: "Deque \<Rightarrow> bool" where
  "IsEmpty d \<longleftrightarrow> GetLen d = 0"

definition GetCapacity :: "Deque \<Rightarrow> int" where
  "GetCapacity d = capacity d"

definition IsUnlimited :: "Deque \<Rightarrow> bool" where
  "IsUnlimited d \<longleftrightarrow> GetCapacity d < 0"

definition IsFull :: "Deque \<Rightarrow> bool" where
  "IsFull d \<longleftrightarrow> \<not> IsUnlimited d \<and> GetLen d \<ge> GetCapacity d"

definition isOverflowing :: "Deque \<Rightarrow> bool" where
  "isOverflowing d \<longleftrightarrow> \<not> IsUnlimited d \<and> GetLen d > GetCapacity d"

subsection \<open>Removal\<close>

text \<open>
  \<^verbatim>\<open>tryPop\<close> and \<^verbatim>\<open>tryPopLeft\<close> declare \<^verbatim>\<open>var value T\<close> and return it on every path
  without assigning to it.
\<close>

definition tryPop :: "'a::zero state \<Rightarrow> (('a \<times> err option) \<times> 'a state) option" where
  "tryPop s = (case s of (h, d) \<Rightarrow>
     let zero_value = 0 in
     if GetLen d = 0 then Some ((zero_value, Some PopError), (h, d))
     else do {
       (h', d') \<leftarrow>
         (if GetLen d = 1 then Some (h, d\<lparr>head := None, tail := None\<rparr>)
          else do {
            let oldTail = tail d;
            ot \<leftarrow> deref h oldTail;
            let newTail = node_prev ot;
            h1 \<leftarrow> set_next newTail None h;
            h2 \<leftarrow> set_next oldTail None h1;
            h3 \<leftarrow> set_prev oldTail None h2;
            h4 \<leftarrow> set_prev (tail d) None h3;
            Some (h4, d\<lparr>tail := newTail\<rparr>)
          });
       Some ((zero_value, None), (h', d'\<lparr>len := len d' - 1\<rparr>))
     })"

definition tryPopLeft :: "'a::zero state \<Rightarrow> (('a \<times> err option) \<times> 'a state) option" where
  "tryPopLeft s = (case s of (h, d) \<Rightarrow>
     let zero_value = 0 in
     if GetLen d = 0 then Some ((zero_value, Some PopError), (h, d))
     else do {
       (h', d') \<leftarrow>
         (if GetLen d = 1 then Some (h, d\<lparr>head := None, tail := None\<rparr>)
          else do {
            hd_node \<leftarrow> deref h (head d);
            let newHead = node_next hd_node;
            h1 \<leftarrow> set_prev newHead None h;
            Some (h1, d\<lparr>head := newHead\<rparr>)
          });
       Some ((zero_value, None), (h', d'\<lparr>len := len d' - 1\<rparr>))
     })"

definition TryPop :: "'a::zero state \<Rightarrow> (('a \<times> err option) \<times> 'a state) option" where
  "TryPop s = tryPop s"

definition TryPopLeft :: "'a::zero state \<Rightarrow> (('a \<times> err option) \<times> 'a state) option" where
  "TryPopLeft s = tryPopLeft s"

subsection \<open>Insertion\<close>

definition append :: "'a::zero \<Rightarrow> 'a state \<Rightarrow> 'a state option" where
  "append v s = (case s of (h, d) \<Rightarrow>
     case new_node h \<lparr>node_value = v, node_next = None, node_prev = None\<rparr> of (n, h0) \<Rightarrow>
     do {
       (h', d') \<leftarrow>
         (if GetLen d = 0 then Some (h0, d\<lparr>head := Some n, tail := Some n\<rparr>)
          else if GetLen d = 1 then do {
            h1 \<leftarrow> set_prev (Some n) (head d) h0;
            h2 \<leftarrow> set_next (head d) (Some n) h1;
            Some (h2, d\<lparr>tail := Some n\<rparr>)
          }
          else do {
            h1 \<leftarrow> set_prev (Some n) (tail d) h0;
            h2 \<leftarrow> set_next (tail d) (Some n) h1;
            Some (h2, d\<lparr>tail := Some n\<rparr>)
          });
       let d'' = d'\<lparr>len := len d' + 1\<rparr>;
       if isOverflowing d'' then map_option snd (tryPopLeft (h', d'')) else Some (h', d'')
     })"

definition Append :: "'a::zero \<Rightarrow> 'a state \<Rightarrow> 'a state option" where
  "Append v s = append v s"

definition appendLeft :: "'a::zero \<Rightarrow> 'a state \<Rightarrow> 'a state option" where
  "appendLeft v s = (case s of (h, d) \<Rightarrow>
     case new_node h \<lparr>node_value = v, node_next = None, node_prev = None\<rparr> of (n, h0) \<Rightarrow>
     do {
       (h', d') \<leftarrow>
         (if GetLen d = 0 then Some (h0, d\<lparr>head := Some n, tail := Some n\<rparr>)
          else do {
            h1 \<leftarrow> set_next (Some n) (head d) h0;
            h2 \<leftarrow> set_prev (head d) (Some n) h1;
            Some (h2, d\<lparr>head := Some n\<rparr>)
          });
       let d'' = d'\<lparr>len := len d' + 1\<rparr>;
       if isOverflowing d'' then map_option snd (tryPop (h', d'')) else Some (h', d'')
     })"

definition AppendLeft :: "'a::zero \<Rightarrow> 'a state \<Rightarrow> 'a state option" where
  "AppendLeft v s = appendLeft v s"

subsection \<open>Clear\<close>

definition Clear :: "'a state \<Rightarrow> 'a state option" where
  "Clear s = (case s of (h, d) \<Rightarrow> Some (h, d\<lparr>head := None, tail := None, len := 0\<rparr>))"

subsection \<open>Lookup\<close>

text \<open>\<^verbatim>\<open>for range k { n = n.next }\<close> and its mirror image on \<^verbatim>\<open>prev\<close>.\<close>

fun walk_next :: "'a heap \<Rightarrow> nat option \<Rightarrow> nat \<Rightarrow> nat option option" where
  "walk_next h n 0 = Some n"
| "walk_next h n (Suc k) = do { nd \<leftarrow> deref h n; walk_next h (node_next nd) k }"

fun walk_prev :: "'a heap \<Rightarrow> nat option \<Rightarrow> nat \<Rightarrow> nat option option" where
  "walk_prev h n 0 = Some n"
| "walk_prev h n (Suc k) = do { nd \<leftarrow> deref h n; walk_prev h (node_prev nd) k }"

text \<open>
  Where the division \<^verbatim>\<open>self.GetLen()/2\<close> is evaluated the length is positive, so Go's
  truncating division and \<open>div\<close> agree.
\<close>

definition TryPeek :: "int \<Rightarrow> 'a::zero state \<Rightarrow> (('a \<times> err option) \<times> 'a state) option" where
  "TryPeek index s = (case s of (h, d) \<Rightarrow>
     if index < 0 \<or> index \<ge> GetLen d then Some ((0, Some (PeekError index)), (h, d))
     else if index < GetLen d div 2 then do {
       n \<leftarrow> walk_next h (head d) (nat index);
       nd \<leftarrow> deref h n;
       Some ((node_value nd, None), (h, d))
     }
     else do {
       n \<leftarrow> walk_prev h (tail d) (nat (GetLen d - 1 - index));
       nd \<leftarrow> deref h n;
       Some ((node_value nd, None), (h, d))
     })"

text \<open>\<^verbatim>\<open>Peek\<close> panics on an error of \<^verbatim>\<open>TryPeek\<close>.\<close>

definition Peek :: "int \<Rightarrow> 'a::zero state \<Rightarrow> ('a \<times> 'a state) option" where
  "Peek index s = do {
     ((v, e), s') \<leftarrow> TryPeek index s;
     (case e of Some _ \<Rightarrow> None | None \<Rightarrow> Some (v, s'))
   }"

subsection \<open>Rotation\<close>

definition rotateRight :: "'a state \<Rightarrow> 'a state option" where
  "rotateRight s = (case s of (h, d) \<Rightarrow> do {
     let t = tail d;
     h1 \<leftarrow> set_next t (head d) h;
     tn \<leftarrow> deref h1 t;
     let d1 = d\<lparr>tail := node_prev tn\<rparr>;
     h2 \<leftarrow> set_next (tail d1) None h1;
     h3 \<leftarrow> set_prev t None h2;
     Some (h3, d1\<lparr>head := t\<rparr>)
   })"

definition rotateLeft :: "'a state \<Rightarrow> 'a state option" where
  "rotateLeft s = (case s of (h, d) \<Rightarrow> do {
     let hp = head d;
     hn \<leftarrow> deref h hp;
     let d1 = d\<lparr>head := node_next hn\<rparr>;
     h1 \<leftarrow> set_next hp None h;
     let t = tail d1;
     h2 \<leftarrow> set_next t hp h1;
     Some (h2, d1\<lparr>tail := hp\<rparr>)
   })"

text \<open>\<^verbatim>\<open>n = -n\<close> on a 64-bit \<^verbatim>\<open>int\<close>: the negation of the least value wraps to itself.\<close>

definition neg_int64 :: "int \<Rightarrow> int" where
  "neg_int64 n = ((- n + 2 ^ 63) mod 2 ^ 64) - 2 ^ 63"

text \<open>\<^verbatim>\<open>for range k { f() }\<close>; the loop body may panic.\<close>

fun repeat :: "nat \<Rightarrow> ('s \<Rightarrow> 's option) \<Rightarrow> 's \<Rightarrow> 's option" where
  "repeat 0 f s = Some s"
| "repeat (Suc k) f s = do { s' \<leftarrow> f s; repeat k f s' }"

text \<open>A \<^verbatim>\<open>range\<close> over a count that is not positive runs no iteration: \<open>nat\<close> of it is 0.\<close>

definition Rotate :: "int \<Rightarrow> 'a state \<Rightarrow> 'a state option" where
  "Rotate n s = (case s of (h, d) \<Rightarrow>
     if GetLen d < 2 then Some (h, d)
     else
       let doRotation = (if n \<ge> 0 then rotateRight else rotateLeft);
           n' = (if n < 0 then neg_int64 n else n)
       in repeat (nat n') doRotation (h, d))"

subsection \<open>Iteration, counting and copying\<close>

text \<open>
  \<^verbatim>\<open>for item := self.head; item != nil; item = item.next\<close> ends only when the chain
  reaches \<^verbatim>\<open>nil\<close>. A chain that reaches \<^verbatim>\<open>nil\<close> visits no node twice, hence at most
  \<open>length h\<close> nodes; the traversals below carry that number as fuel, and running out
  of it means that the Go loop runs forever.
\<close>

fun values_from :: "nat \<Rightarrow> 'a heap \<Rightarrow> nat option \<Rightarrow> 'a list option" where
  "values_from fuel h None = Some []"
| "values_from 0 h (Some a) = None"
| "values_from (Suc fuel) h (Some a) = do {
     nd \<leftarrow> deref h (Some a);
     vs \<leftarrow> values_from fuel h (node_next nd);
     Some (node_value nd # vs)
   }"

definition Values :: "'a state \<Rightarrow> 'a list option" where
  "Values s = (case s of (h, d) \<Rightarrow> values_from (length h) h (head d))"

definition All :: "'a state \<Rightarrow> (int \<times> 'a) list option" where
  "All s = map_option (\<lambda>vs. zip (map int [0..<length vs]) vs) (Values s)"

definition Count :: "'a \<Rightarrow> 'a state \<Rightarrow> int option" where
  "Count v s = map_option (\<lambda>vs. int (length (filter (\<lambda>x. x = v) vs))) (Values s)"

text \<open>
  \<^verbatim>\<open>Copy\<close> appends to the new deque inside the traversal of the source: the source's
  \<^verbatim>\<open>item.next\<close> is read after the \<^verbatim>\<open>append\<close> of \<^verbatim>\<open>item.value\<close> has run.
\<close>

fun copy_loop :: "nat \<Rightarrow> nat option \<Rightarrow> 'a::zero state \<Rightarrow> 'a state option" where
  "copy_loop fuel None s = Some s"
| "copy_loop 0 (Some a) s = None"
| "copy_loop (Suc fuel) (Some a) s = do {
     nd \<leftarrow> deref (fst s) (Some a);
     s' \<leftarrow> append (node_value nd) s;
     nd' \<leftarrow> deref (fst s') (Some a);
     copy_loop fuel (node_next nd') s'
   }"

text \<open>The result is the shared heap together with the new \<^verbatim>\<open>Deque\<close> struct.\<close>

definition Copy :: "'a::zero state \<Rightarrow> 'a state option" where
  "Copy s = (case s of (h, d) \<Rightarrow> copy_loop (length h) (head d) (h, NewDeque (capacity d)))"

subsection \<open>Sequences of public mutating operations\<close>

datatype 'a op = OpAppend 'a | OpAppendLeft 'a | OpTryPop | OpTryPopLeft | OpClear | OpRotate int

fun apply_op :: "'a::zero op \<Rightarrow> 'a state \<Rightarrow> 'a state option" where
  "apply_op (OpAppend v) s = Append v s"
| "apply_op (OpAppendLeft v) s = AppendLeft v s"
| "apply_op OpTryPop s = map_option snd (TryPop s)"
| "apply_op OpTryPopLeft s = map_option snd (TryPopLeft s)"
| "apply_op OpClear s = Clear s"
| "apply_op (OpRotate n) s = Rotate n s"

fun run :: "'a::zero op list \<Rightarrow> 'a state \<Rightarrow> 'a state option" where
  "run [] s = Some s"
| "run (x # xs) s = do { s' \<leftarrow> apply_op x s; run xs s' }"


section \<open>The list a deque represents\<close>

text \<open>
  \<open>seg f h p as q\<close>: following the field \<open>f\<close> from the pointer \<open>p\<close> visits exactly the
  allocated nodes \<open>as\<close>, in this order, and then arrives at \<open>q\<close>.
\<close>

fun seg :: "('a node \<Rightarrow> nat option) \<Rightarrow> 'a heap \<Rightarrow> nat option \<Rightarrow> nat list \<Rightarrow> nat option \<Rightarrow> bool" where
  "seg f h p [] q \<longleftrightarrow> p = q"
| "seg f h p (a # as) q \<longleftrightarrow> p = Some a \<and> a < length h \<and> seg f h (f (h ! a)) as q"

text \<open>
  \<open>dll h d as\<close>: the deque \<open>d\<close> is the well-formed doubly linked list of the distinct
  nodes \<open>as\<close>: the \<^verbatim>\<open>next\<close> chain from \<^verbatim>\<open>head\<close> runs through \<open>as\<close> to \<^verbatim>\<open>nil\<close>, the
  \<^verbatim>\<open>prev\<close> chain from \<^verbatim>\<open>tail\<close> runs through the same nodes in reverse to \<^verbatim>\<open>nil\<close>, and
  \<^verbatim>\<open>len\<close> counts them.
\<close>

definition dll :: "'a heap \<Rightarrow> Deque \<Rightarrow> nat list \<Rightarrow> bool" where
  "dll h d as \<longleftrightarrow> distinct as \<and> len d = int (length as)
     \<and> seg node_next h (head d) as None \<and> seg node_prev h (tail d) (rev as) None"

definition vals :: "'a heap \<Rightarrow> nat list \<Rightarrow> 'a list" where
  "vals h as = map (\<lambda>a. node_value (h ! a)) as"

text \<open>
  The first half of \<^verbatim>\<open>append\<close> and of \<^verbatim>\<open>appendLeft\<close>, up to and including
  \<^verbatim>\<open>self.len++\<close>; the proofs treat the linking and the eviction one after the other.
\<close>

definition link_right :: "'a \<Rightarrow> 'a state \<Rightarrow> 'a state option" where
  "link_right v s = (case s of (h, d) \<Rightarrow>
     case new_node h \<lparr>node_value = v, node_next = None, node_prev = None\<rparr> of (n, h0) \<Rightarrow>
     do {
       (h', d') \<leftarrow>
         (if GetLen d = 0 then Some (h0, d\<lparr>head := Some n, tail := Some n\<rparr>)
          else if GetLen d = 1 then do {
            h1 \<leftarrow> set_prev (Some n) (head d) h0;
            h2 \<leftarrow> set_next (head d) (Some n) h1;
            Some (h2, d\<lparr>tail := Some n\<rparr>)
          }
          else do {
            h1 \<leftarrow> set_prev (Some n) (tail d) h0;
            h2 \<leftarrow> set_next (tail d) (Some n) h1;
            Some (h2, d\<lparr>tail := Some n\<rparr>)
          });
       Some (h', d'\<lparr>len := len d' + 1\<rparr>)
     })"

definition link_left :: "'a \<Rightarrow> 'a state \<Rightarrow> 'a state option" where
  "link_left v s = (case s of (h, d) \<Rightarrow>
     case new_node h \<lparr>node_value = v, node_next = None, node_prev = None\<rparr> of (n, h0) \<Rightarrow>
     do {
       (h', d') \<leftarrow>
         (if GetLen d = 0 then Some (h0, d\<lparr>head := Some n, tail := Some n\<rparr>)
          else do {
            h1 \<leftarrow> set_next (Some n) (head d) h0;
            h2 \<leftarrow> set_prev (head d) (Some n) h1;
            Some (h2, d\<lparr>head := Some n\<rparr>)
          });
       Some (h', d'\<lparr>len := len d' + 1\<rparr>)
     })"

text \<open>
  Ownership, for the effect of an operation on nodes of another deque. \<open>owned S s\<close>: the
  pointers of the deque and of every node in \<open>S\<close> lead into \<open>S\<close> again, so that whatever
  the operations of this deque dereference lies in \<open>S\<close>. \<open>frame S h h'\<close>: the heap has
  only grown, and no node outside \<open>S\<close> has been written.
\<close>

definition ptr_in :: "nat set \<Rightarrow> nat option \<Rightarrow> bool" where
  "ptr_in S p \<longleftrightarrow> (case p of None \<Rightarrow> True | Some a \<Rightarrow> a \<in> S)"

definition closed :: "nat set \<Rightarrow> 'a heap \<Rightarrow> bool" where
  "closed S h \<longleftrightarrow>
     (\<forall>a\<in>S. a < length h \<and> ptr_in S (node_next (h ! a)) \<and> ptr_in S (node_prev (h ! a)))"

definition owned :: "nat set \<Rightarrow> 'a state \<Rightarrow> bool" where
  "owned S s \<longleftrightarrow> closed S (fst s) \<and> ptr_in S (head (snd s)) \<and> ptr_in S (tail (snd s))"

definition frame :: "nat set \<Rightarrow> 'a heap \<Rightarrow> 'a heap \<Rightarrow> bool" where
  "frame S h h' \<longleftrightarrow> length h \<le> length h' \<and> (\<forall>b<length h. b \<notin> S \<longrightarrow> h' ! b = h ! b)"

text \<open>
  The structural invariant that the specification states for a length of at least 2, as
  a check that runs on a state: \<^verbatim>\<open>head.prev\<close> and \<^verbatim>\<open>tail.next\<close> are \<^verbatim>\<open>nil\<close>, following
  \<^verbatim>\<open>next\<close> from the head exactly \<^verbatim>\<open>len\<close> times arrives at \<^verbatim>\<open>nil\<close>, and following
  \<^verbatim>\<open>prev\<close> from the tail visits the same nodes in reverse order and arrives at \<^verbatim>\<open>nil\<close>.
  \<open>follow f h p k\<close> takes \<open>k\<close> steps along the field \<open>f\<close> and returns the nodes it
  left behind and the pointer it arrived at, if it could take them all.
\<close>

fun follow :: "('a node \<Rightarrow> nat option) \<Rightarrow> 'a heap \<Rightarrow> nat option \<Rightarrow> nat
    \<Rightarrow> (nat list \<times> nat option) option" where
  "follow f h p 0 = Some ([], p)"
| "follow f h None (Suc k) = None"
| "follow f h (Some a) (Suc k) =
     (if a < length h
      then map_option (\<lambda>r. (a # fst r, snd r)) (follow f h (f (h ! a)) k)
      else None)"

definition structural_invariant :: "'a state \<Rightarrow> bool" where
  "structural_invariant s = (case s of (h, d) \<Rightarrow>
     if len d \<ge> 2 then
       map_option node_prev (deref h (head d)) = Some None
       \<and> map_option node_next (deref h (tail d)) = Some None
       \<and> (case follow node_next h (head d) (nat (len d)) of
            None \<Rightarrow> False
          | Some (as, q) \<Rightarrow>
              q = None \<and> follow node_prev h (tail d) (nat (len d)) = Some (rev as, None))
     else True)"

fun is_rotation :: "'a op \<Rightarrow> bool" where
  "is_rotation (OpRotate n) = True"
| "is_rotation _ = False"

section \<open>Basic facts\<close>

lemmas heap_defs = new_node_def deref_def set_next_def set_prev_def

lemmas query_defs =
  GetLen_def IsEmpty_def GetCapacity_def IsUnlimited_def IsFull_def isOverflowing_def

lemma isOverflowing_iff: "isOverflowing d \<longleftrightarrow> 0 \<le> capacity d \<and> capacity d < len d"
  by (auto simp: query_defs)

lemma IsFull_iff: "IsFull d \<longleftrightarrow> 0 \<le> capacity d \<and> capacity d \<le> len d"
  by (auto simp: query_defs)

lemma nth_upd: "h[a := n] ! b = (if a = b \<and> a < length h then n else h ! b)"
  by (cases "a < length h") (auto simp: nth_list_update list_update_beyond)

subsection \<open>Chains\<close>

lemma seg_append:
  "seg f h p (as @ bs) q \<longleftrightarrow> (\<exists>r. seg f h p as r \<and> seg f h r bs q)"
  by (induction as arbitrary: p) auto

lemma seg_bound: "seg f h p as q \<Longrightarrow> a \<in> set as \<Longrightarrow> a < length h"
  by (induction as arbitrary: p) auto

lemma seg_cong:
  "seg f h p as q \<Longrightarrow> \<forall>a\<in>set as. a < length h \<longrightarrow> a < length h' \<and> f (h' ! a) = f (h ! a)
     \<Longrightarrow> seg f h' p as q"
  by (induction as arbitrary: p) auto

lemma seg_upd_notin: "a \<notin> set as \<Longrightarrow> seg f (h[a := n]) p as q = seg f h p as q"
  by (induction as arbitrary: p) (auto simp: nth_upd)

lemma seg_grow: "seg f h p as q \<Longrightarrow> seg f (h @ ns) p as q"
  by (induction as arbitrary: p) (auto simp: nth_append)

lemma seg_length: "seg f h p as q \<Longrightarrow> distinct as \<Longrightarrow> length as \<le> length h"
proof -
  assume s: "seg f h p as q" and d: "distinct as"
  have "set as \<subseteq> {..<length h}" using seg_bound [OF s] by auto
  then have "card (set as) \<le> card {..<length h}" by (intro card_mono) auto
  then show ?thesis using d by (simp add: distinct_card)
qed

lemma dll_Nil: "dll h d [] \<longleftrightarrow> len d = 0 \<and> head d = None \<and> tail d = None"
  by (auto simp: dll_def)

lemma dll_cong:
  assumes "dll h d as" "length h \<le> length h'" "\<forall>a\<in>set as. h' ! a = h ! a"
  shows "dll h' d as"
  using assms unfolding dll_def
  by (auto intro!: seg_cong [where h = h and h' = h'])

subsection \<open>Removal and insertion on a well-formed list\<close>

lemma tryPopLeft_dll:
  assumes "dll h d (a # as)"
  shows "\<exists>h' d'. tryPopLeft (h, d) = Some ((0, None), (h', d')) \<and> dll h' d' as
     \<and> capacity d' = capacity d \<and> length h' = length h
     \<and> (\<forall>b<length h. node_value (h' ! b) = node_value (h ! b))"
  using assms
  by (cases as)
     (auto simp: tryPopLeft_def dll_def query_defs heap_defs seg_append seg_upd_notin nth_upd)

lemma tryPop_dll:
  assumes "dll h d (as @ [a])"
  shows "\<exists>h' d'. tryPop (h, d) = Some ((0, None), (h', d')) \<and> dll h' d' as
     \<and> capacity d' = capacity d \<and> length h' = length h
     \<and> (\<forall>b<length h. node_value (h' ! b) = node_value (h ! b))"
  using assms
  by (cases as rule: rev_cases)
     (auto simp: tryPop_def dll_def query_defs heap_defs seg_append seg_upd_notin nth_upd)

lemma append_link_right:
  "append v s = do {
     (h', d') \<leftarrow> link_right v s;
     if isOverflowing d' then map_option snd (tryPopLeft (h', d')) else Some (h', d')
   }"
  by (simp add: append_def link_right_def split: prod.splits Option.bind_splits)

lemma link_right_dll:
  assumes "dll h d as"
  shows "\<exists>h' d'. link_right v (h, d) = Some (h', d') \<and> dll h' d' (as @ [length h])
     \<and> capacity d' = capacity d \<and> length h' = Suc (length h)
     \<and> (\<forall>b<length h. node_value (h' ! b) = node_value (h ! b))
     \<and> node_value (h' ! length h) = v"
proof (cases as rule: rev_cases)
  case Nil
  with assms show ?thesis
    by (auto simp: link_right_def dll_def query_defs heap_defs nth_append)
next
  case (snoc bs b)
  show ?thesis
  proof (cases bs)
    case Nil
    with snoc assms show ?thesis
      by (auto simp: link_right_def dll_def query_defs heap_defs seg_append seg_upd_notin
          nth_upd nth_append)
  next
    case (Cons c cs)
    with snoc assms show ?thesis
      by (auto simp: link_right_def dll_def query_defs heap_defs seg_append seg_upd_notin
          nth_upd nth_append intro: seg_grow dest: seg_bound)
  qed
qed

lemma append_dll:
  assumes "dll h d as"
  shows "\<exists>h' d'. append v (h, d) = Some (h', d')
     \<and> dll h' d' (if 0 \<le> capacity d \<and> capacity d \<le> len d
                   then tl (as @ [length h]) else as @ [length h])
     \<and> capacity d' = capacity d \<and> length h' = Suc (length h)
     \<and> (\<forall>b<length h. node_value (h' ! b) = node_value (h ! b))
     \<and> node_value (h' ! length h) = v"
proof -
  obtain h1 d1 where l: "link_right v (h, d) = Some (h1, d1)"
    and d1: "dll h1 d1 (as @ [length h])"
    and c1: "capacity d1 = capacity d" and n1: "length h1 = Suc (length h)"
    and v1: "\<forall>b<length h. node_value (h1 ! b) = node_value (h ! b)"
    and v1': "node_value (h1 ! length h) = v"
    using link_right_dll [OF assms, of v] by blast
  have len1: "len d1 = len d + 1"
    using d1 assms by (simp add: dll_def)
  show ?thesis
  proof (cases "0 \<le> capacity d \<and> capacity d \<le> len d")
    case False
    then have "\<not> isOverflowing d1"
      using c1 len1 by (auto simp: isOverflowing_iff)
    with l d1 c1 n1 v1 v1' False show ?thesis
      by (auto simp: append_link_right)
  next
    case True
    then have ov: "isOverflowing d1"
      using c1 len1 by (auto simp: isOverflowing_iff)
    obtain x xs where xs: "as @ [length h] = x # xs"
      by (cases "as @ [length h]") auto
    obtain h2 d2 where p: "tryPopLeft (h1, d1) = Some ((0, None), (h2, d2))"
      and d2: "dll h2 d2 xs"
      and c2: "capacity d2 = capacity d1" and n2: "length h2 = length h1"
      and v2: "\<forall>b<length h1. node_value (h2 ! b) = node_value (h1 ! b)"
      using tryPopLeft_dll [of h1 d1 x xs] d1 xs by auto
    have "append v (h, d) = Some (h2, d2)"
      using l ov p by (simp add: append_link_right)
    moreover have "dll h2 d2 (tl (as @ [length h]))"
      using d2 xs by simp
    ultimately show ?thesis
      using True c1 c2 n1 n2 v1 v1' v2 by simp
  qed
qed

lemma appendLeft_link_left:
  "appendLeft v s = do {
     (h', d') \<leftarrow> link_left v s;
     if isOverflowing d' then map_option snd (tryPop (h', d')) else Some (h', d')
   }"
  by (simp add: appendLeft_def link_left_def split: prod.splits Option.bind_splits)

lemma link_left_dll:
  assumes "dll h d as"
  shows "\<exists>h' d'. link_left v (h, d) = Some (h', d') \<and> dll h' d' (length h # as)
     \<and> capacity d' = capacity d \<and> length h' = Suc (length h)
     \<and> (\<forall>b<length h. node_value (h' ! b) = node_value (h ! b))
     \<and> node_value (h' ! length h) = v"
  using assms
  by (cases as)
     (auto simp: link_left_def dll_def query_defs heap_defs seg_append seg_upd_notin
        nth_upd nth_append intro: seg_grow dest: seg_bound)

lemma appendLeft_dll:
  assumes "dll h d as"
  shows "\<exists>h' d'. appendLeft v (h, d) = Some (h', d')
     \<and> dll h' d' (if 0 \<le> capacity d \<and> capacity d \<le> len d
                   then butlast (length h # as) else length h # as)
     \<and> capacity d' = capacity d \<and> length h' = Suc (length h)
     \<and> (\<forall>b<length h. node_value (h' ! b) = node_value (h ! b))
     \<and> node_value (h' ! length h) = v"
proof -
  obtain h1 d1 where l: "link_left v (h, d) = Some (h1, d1)"
    and d1: "dll h1 d1 (length h # as)"
    and c1: "capacity d1 = capacity d" and n1: "length h1 = Suc (length h)"
    and v1: "\<forall>b<length h. node_value (h1 ! b) = node_value (h ! b)"
    and v1': "node_value (h1 ! length h) = v"
    using link_left_dll [OF assms, of v] by blast
  have len1: "len d1 = len d + 1"
    using d1 assms by (simp add: dll_def)
  show ?thesis
  proof (cases "0 \<le> capacity d \<and> capacity d \<le> len d")
    case False
    then have "\<not> isOverflowing d1"
      using c1 len1 by (auto simp: isOverflowing_iff)
    with l d1 c1 n1 v1 v1' False show ?thesis
      by (auto simp: appendLeft_link_left)
  next
    case True
    then have ov: "isOverflowing d1"
      using c1 len1 by (auto simp: isOverflowing_iff)
    have xs: "length h # as = butlast (length h # as) @ [last (length h # as)]"
      by (rule append_butlast_last_id [symmetric]) simp
    obtain h2 d2 where p: "tryPop (h1, d1) = Some ((0, None), (h2, d2))"
      and d2: "dll h2 d2 (butlast (length h # as))"
      and c2: "capacity d2 = capacity d1" and n2: "length h2 = length h1"
      and v2: "\<forall>b<length h1. node_value (h2 ! b) = node_value (h1 ! b)"
      using tryPop_dll [of h1 d1 "butlast (length h # as)" "last (length h # as)"] d1 xs
      by auto
    have "appendLeft v (h, d) = Some (h2, d2)"
      using l ov p by (simp add: appendLeft_link_left)
    then show ?thesis
      using True d2 c1 c2 n1 n2 v1 v1' v2 by simp
  qed
qed

text \<open>Whatever the state, the value that a removal returns is the zero value.\<close>

lemma tryPop_value_zero: "tryPop s = Some ((v, e), s') \<Longrightarrow> v = 0"
  by (auto simp: tryPop_def Let_def split: prod.splits if_splits Option.bind_splits)

lemma tryPopLeft_value_zero: "tryPopLeft s = Some ((v, e), s') \<Longrightarrow> v = 0"
  by (auto simp: tryPopLeft_def Let_def split: prod.splits if_splits Option.bind_splits)

subsection \<open>Traversal of a well-formed list\<close>

lemma values_from_seg:
  "seg node_next h p as None \<Longrightarrow> length as \<le> fuel \<Longrightarrow> values_from fuel h p = Some (vals h as)"
proof (induction as arbitrary: p fuel)
  case Nil
  then show ?case by (simp add: vals_def)
next
  case (Cons a as)
  then obtain k where "fuel = Suc k" by (cases fuel) auto
  with Cons show ?case by (simp add: vals_def deref_def)
qed

lemma Values_dll: "dll h d as \<Longrightarrow> Values (h, d) = Some (vals h as)"
  unfolding Values_def dll_def by (auto intro: values_from_seg seg_length)

subsection \<open>A deque of capacity 0\<close>

lemma apply_op_capacity0: "\<exists>h'. apply_op x (h, NewDeque 0) = Some (h', NewDeque 0)"
  by (cases x)
     (simp_all add: Append_def append_def AppendLeft_def appendLeft_def TryPop_def tryPop_def
        TryPopLeft_def tryPopLeft_def Clear_def Rotate_def NewDeque_def heap_defs query_defs)

lemma run_capacity0: "\<exists>h'. run ops (h, NewDeque 0) = Some (h', NewDeque 0)"
proof (induction ops arbitrary: h)
  case Nil
  show ?case by simp
next
  case (Cons x ops)
  obtain h1 where "apply_op x (h, NewDeque 0) = Some (h1, NewDeque 0)"
    using apply_op_capacity0 by blast
  with Cons.IH [of h1] show ?case by simp
qed

subsection \<open>Contents\<close>

lemma vals_eq: "\<forall>a\<in>set as. node_value (h' ! a) = node_value (h ! a) \<Longrightarrow> vals h' as = vals h as"
  by (simp add: vals_def)

lemma dll_bound: "dll h d as \<Longrightarrow> a \<in> set as \<Longrightarrow> a < length h"
  unfolding dll_def by (auto dest: seg_bound)

lemma Append_dll_vals:
  assumes "dll h d as"
  shows "\<exists>h' d' as'. Append v (h, d) = Some (h', d') \<and> dll h' d' as'
     \<and> capacity d' = capacity d
     \<and> vals h' as' = (if 0 \<le> capacity d \<and> capacity d \<le> len d
                       then tl (vals h as @ [v]) else vals h as @ [v])"
proof -
  let ?as = "as @ [length h]"
  obtain h' d' where a: "append v (h, d) = Some (h', d')"
    and d': "dll h' d' (if 0 \<le> capacity d \<and> capacity d \<le> len d then tl ?as else ?as)"
    and c: "capacity d' = capacity d" and n: "length h' = Suc (length h)"
    and v1: "\<forall>b<length h. node_value (h' ! b) = node_value (h ! b)"
    and v2: "node_value (h' ! length h) = v"
    using append_dll [OF assms, of v] by blast
  have "vals h' as = vals h as"
    using v1 dll_bound [OF assms] by (intro vals_eq) auto
  then have "vals h' ?as = vals h as @ [v]"
    using v2 by (simp add: vals_def)
  moreover have "vals h' (tl ?as) = tl (vals h' ?as)"
    by (simp add: vals_def map_tl)
  ultimately show ?thesis
    using a d' c unfolding Append_def
    by (cases "0 \<le> capacity d \<and> capacity d \<le> len d") auto
qed

lemma AppendLeft_dll_vals:
  assumes "dll h d as"
  shows "\<exists>h' d' as'. AppendLeft v (h, d) = Some (h', d') \<and> dll h' d' as'
     \<and> capacity d' = capacity d
     \<and> vals h' as' = (if 0 \<le> capacity d \<and> capacity d \<le> len d
                       then butlast (v # vals h as) else v # vals h as)"
proof -
  let ?as = "length h # as"
  obtain h' d' where a: "appendLeft v (h, d) = Some (h', d')"
    and d': "dll h' d' (if 0 \<le> capacity d \<and> capacity d \<le> len d then butlast ?as else ?as)"
    and c: "capacity d' = capacity d" and n: "length h' = Suc (length h)"
    and v1: "\<forall>b<length h. node_value (h' ! b) = node_value (h ! b)"
    and v2: "node_value (h' ! length h) = v"
    using appendLeft_dll [OF assms, of v] by blast
  have "vals h' as = vals h as"
    using v1 dll_bound [OF assms] by (intro vals_eq) auto
  then have "vals h' ?as = v # vals h as"
    using v2 by (simp add: vals_def)
  moreover have "vals h' (butlast ?as) = butlast (vals h' ?as)"
    by (simp add: vals_def map_butlast)
  ultimately show ?thesis
    using a d' c unfolding AppendLeft_def
    by (cases "0 \<le> capacity d \<and> capacity d \<le> len d") auto
qed

lemma dll_len: "dll h d as \<Longrightarrow> len d = int (length (vals h as))"
  by (simp add: dll_def vals_def)

subsection \<open>A sequence of appends\<close>

lemma drop_push:
  assumes "length xs \<le> c"
  shows "drop (length ((if c \<le> length xs then tl (xs @ [v]) else xs @ [v]) @ vs) - c)
           ((if c \<le> length xs then tl (xs @ [v]) else xs @ [v]) @ vs)
         = drop (length (xs @ v # vs) - c) (xs @ v # vs)"
proof (cases "c \<le> length xs")
  case False
  then show ?thesis by simp
next
  case True
  with assms have l: "length xs = c" by simp
  obtain y ys where y: "xs @ [v] = y # ys" by (cases "xs @ [v]") auto
  have ly: "length ys = c"
    using l arg_cong [OF y, of length] by simp
  have eq: "xs @ v # vs = y # (ys @ vs)"
    using arg_cong [OF y, of "\<lambda>zs. zs @ vs"] by simp
  have L: "(if c \<le> length xs then tl (xs @ [v]) else xs @ [v]) = ys"
    using True y by simp
  have n1: "length (ys @ vs) - c = length vs" using ly by simp
  have n2: "length (xs @ v # vs) - c = Suc (length vs)" using l by simp
  have "drop (length (ys @ vs) - c) (ys @ vs) = drop (length vs) (ys @ vs)"
    by (simp only: n1)
  also have "\<dots> = drop (Suc (length vs)) (y # (ys @ vs))" by simp
  also have "\<dots> = drop (length (xs @ v # vs) - c) (xs @ v # vs)"
    unfolding n2 by (simp only: eq)
  finally show ?thesis by (simp only: L)
qed

lemma run_appends_dll:
  assumes "dll h d as" "\<not> isOverflowing d"
  shows "\<exists>h' d' as'. run (map OpAppend vs) (h, d) = Some (h', d') \<and> dll h' d' as'
     \<and> capacity d' = capacity d
     \<and> vals h' as' = (if capacity d < 0 then vals h as @ vs
          else drop (length (vals h as @ vs) - nat (capacity d)) (vals h as @ vs))"
  using assms
proof (induction vs arbitrary: h d as)
  case Nil
  then have "length (vals h as) \<le> nat (capacity d) \<or> capacity d < 0"
    using dll_len [of h d as] by (auto simp: isOverflowing_iff)
  with Nil show ?case by auto
next
  case (Cons v vs)
  let ?full = "0 \<le> capacity d \<and> capacity d \<le> len d"
  let ?xs1 = "if ?full then tl (vals h as @ [v]) else vals h as @ [v]"
  obtain h1 d1 as1 where a: "Append v (h, d) = Some (h1, d1)" and d1: "dll h1 d1 as1"
    and c1: "capacity d1 = capacity d" and v1: "vals h1 as1 = ?xs1"
    using Append_dll_vals [OF Cons.prems(1), of v] by blast
  have len: "len d = int (length (vals h as))" using dll_len [OF Cons.prems(1)] .
  have len1: "len d1 = int (length ?xs1)" using dll_len [OF d1] v1 by simp
  have no: "\<not> isOverflowing d1"
    using Cons.prems(2) len len1 c1 by (auto simp: isOverflowing_iff)
  obtain h' d' as' where r: "run (map OpAppend vs) (h1, d1) = Some (h', d')" and d': "dll h' d' as'"
    and c': "capacity d' = capacity d1"
    and v': "vals h' as' = (if capacity d1 < 0 then vals h1 as1 @ vs
          else drop (length (vals h1 as1 @ vs) - nat (capacity d1)) (vals h1 as1 @ vs))"
    using Cons.IH [OF d1 no] by blast
  have run: "run (map OpAppend (v # vs)) (h, d) = Some (h', d')"
    using a r by simp
  show ?case
  proof (cases "capacity d < 0")
    case True
    with run d' c' c1 v' v1 show ?thesis by auto
  next
    case False
    then have le: "length (vals h as) \<le> nat (capacity d)"
      using Cons.prems(2) len by (auto simp: isOverflowing_iff)
    have full: "?full \<longleftrightarrow> nat (capacity d) \<le> length (vals h as)"
      using False len by auto
    have "vals h' as' = drop (length (?xs1 @ vs) - nat (capacity d)) (?xs1 @ vs)"
      using v' v1 c1 False by simp
    also have "\<dots> = drop (length (vals h as @ v # vs) - nat (capacity d)) (vals h as @ v # vs)"
      using drop_push [OF le, of v vs] unfolding full by simp
    finally show ?thesis
      using run d' c' c1 False by auto
  qed
qed

subsection \<open>Ownership and frames\<close>

lemma ptr_in_simps [simp]: "ptr_in S None" "ptr_in S (Some a) \<longleftrightarrow> a \<in> S"
  by (simp_all add: ptr_in_def)

lemma frame_refl: "frame S h h"
  by (simp add: frame_def)

lemma frame_trans:
  "frame S h h1 \<Longrightarrow> frame (S \<union> {length h..<length h1}) h1 h2 \<Longrightarrow> frame S h h2"
  by (auto simp: frame_def)

lemma tryPopLeft_owned:
  assumes "owned S (h, d)" "tryPopLeft (h, d) = Some (r, (h', d'))"
  shows "owned S (h', d') \<and> length h' = length h \<and> frame S h h'"
  using assms
  by (auto simp: tryPopLeft_def owned_def closed_def frame_def query_defs heap_defs nth_upd Let_def
      split: if_splits Option.bind_splits option.splits)

lemma tryPop_owned:
  assumes "owned S (h, d)" "tryPop (h, d) = Some (r, (h', d'))"
  shows "owned S (h', d') \<and> length h' = length h \<and> frame S h h'"
  using assms
  by (auto simp: tryPop_def owned_def closed_def frame_def query_defs heap_defs nth_upd Let_def
      split: if_splits Option.bind_splits option.splits)

lemma ptr_in_insert: "ptr_in (insert a S) p \<longleftrightarrow> p = Some a \<or> ptr_in S p"
  by (cases p) auto

lemma link_right_owned:
  assumes "owned S (h, d)" "link_right v (h, d) = Some (h', d')"
  shows "owned (insert (length h) S) (h', d') \<and> length h' = Suc (length h) \<and> frame S h h'"
  using assms
  by (auto simp: link_right_def owned_def closed_def frame_def query_defs heap_defs nth_upd
        nth_append Let_def ptr_in_insert
      split: if_splits Option.bind_splits option.splits)

lemma link_left_owned:
  assumes "owned S (h, d)" "link_left v (h, d) = Some (h', d')"
  shows "owned (insert (length h) S) (h', d') \<and> length h' = Suc (length h) \<and> frame S h h'"
  using assms
  by (auto simp: link_left_def owned_def closed_def frame_def query_defs heap_defs nth_upd
        nth_append Let_def ptr_in_insert
      split: if_splits Option.bind_splits option.splits)

lemma frame_step:
  "frame S h h1 \<Longrightarrow> length h1 = Suc (length h) \<Longrightarrow> frame (insert (length h) S) h1 h2
     \<Longrightarrow> frame S h h2"
  by (auto simp: frame_def)

lemma append_owned:
  assumes "owned S (h, d)" "append v (h, d) = Some (h', d')"
  shows "owned (insert (length h) S) (h', d') \<and> length h' = Suc (length h) \<and> frame S h h'"
proof -
  from assms(2) obtain h1 d1 where l: "link_right v (h, d) = Some (h1, d1)"
    and r: "(if isOverflowing d1 then map_option snd (tryPopLeft (h1, d1)) else Some (h1, d1))
              = Some (h', d')"
    by (auto simp: append_link_right split: Option.bind_splits)
  note o1 = link_right_owned [OF assms(1) l]
  show ?thesis
  proof (cases "isOverflowing d1")
    case False
    with r o1 show ?thesis by simp
  next
    case True
    with r obtain res where "tryPopLeft (h1, d1) = Some (res, (h', d'))" by auto
    from tryPopLeft_owned [OF _ this, of "insert (length h) S"] o1
    show ?thesis by (auto intro: frame_step)
  qed
qed

lemma appendLeft_owned:
  assumes "owned S (h, d)" "appendLeft v (h, d) = Some (h', d')"
  shows "owned (insert (length h) S) (h', d') \<and> length h' = Suc (length h) \<and> frame S h h'"
proof -
  from assms(2) obtain h1 d1 where l: "link_left v (h, d) = Some (h1, d1)"
    and r: "(if isOverflowing d1 then map_option snd (tryPop (h1, d1)) else Some (h1, d1))
              = Some (h', d')"
    by (auto simp: appendLeft_link_left split: Option.bind_splits)
  note o1 = link_left_owned [OF assms(1) l]
  show ?thesis
  proof (cases "isOverflowing d1")
    case False
    with r o1 show ?thesis by simp
  next
    case True
    with r obtain res where "tryPop (h1, d1) = Some (res, (h', d'))" by auto
    from tryPop_owned [OF _ this, of "insert (length h) S"] o1
    show ?thesis by (auto intro: frame_step)
  qed
qed

lemma rotateRight_owned:
  assumes "owned S (h, d)" "rotateRight (h, d) = Some (h', d')"
  shows "owned S (h', d') \<and> length h' = length h \<and> frame S h h'"
  using assms
  by (auto simp: rotateRight_def owned_def closed_def frame_def query_defs heap_defs nth_upd Let_def
      split: if_splits Option.bind_splits option.splits)

lemma rotateLeft_owned:
  assumes "owned S (h, d)" "rotateLeft (h, d) = Some (h', d')"
  shows "owned S (h', d') \<and> length h' = length h \<and> frame S h h'"
  using assms
  by (auto simp: rotateLeft_def owned_def closed_def frame_def query_defs heap_defs nth_upd Let_def
      split: if_splits Option.bind_splits option.splits)

lemma frame_same_length:
  "frame S h h1 \<Longrightarrow> length h1 = length h \<Longrightarrow> frame S h1 h2 \<Longrightarrow> frame S h h2"
  by (auto simp: frame_def)

lemma repeat_owned:
  assumes step: "\<And>h d h' d'. owned S (h, d) \<Longrightarrow> f (h, d) = Some (h', d')
      \<Longrightarrow> owned S (h', d') \<and> length h' = length h \<and> frame S h h'"
  shows "owned S (h, d) \<Longrightarrow> repeat k f (h, d) = Some (h', d')
      \<Longrightarrow> owned S (h', d') \<and> length h' = length h \<and> frame S h h'"
proof (induction k arbitrary: h d)
  case 0
  then show ?case by (simp add: frame_refl)
next
  case (Suc k)
  from Suc.prems(2) obtain h1 d1 where f: "f (h, d) = Some (h1, d1)"
    and r: "repeat k f (h1, d1) = Some (h', d')"
    by (auto split: Option.bind_splits)
  from step [OF Suc.prems(1) f] Suc.IH [OF _ r]
  show ?case by (auto intro: frame_same_length)
qed

lemma Rotate_owned:
  assumes "owned S (h, d)" "Rotate n (h, d) = Some (h', d')"
  shows "owned S (h', d') \<and> length h' = length h \<and> frame S h h'"
proof (cases "GetLen d < 2")
  case True
  with assms show ?thesis by (simp add: Rotate_def frame_refl)
next
  case False
  show ?thesis
  proof (cases "n \<ge> 0")
    case True
    with False assms(2) have "repeat (nat n) rotateRight (h, d) = Some (h', d')"
      by (simp add: Rotate_def)
    from repeat_owned [of S rotateRight, OF rotateRight_owned assms(1) this]
    show ?thesis by simp
  next
    case n: False
    with False assms(2) have "repeat (nat (neg_int64 n)) rotateLeft (h, d) = Some (h', d')"
      by (simp add: Rotate_def)
    from repeat_owned [of S rotateLeft, OF rotateLeft_owned assms(1) this]
    show ?thesis by simp
  qed
qed

lemma apply_op_owned:
  assumes "owned S (h, d)" "apply_op x (h, d) = Some (h', d')"
  shows "owned (S \<union> {length h..<length h'}) (h', d') \<and> frame S h h'"
proof (cases x)
  case (OpAppend v)
  with assms have "append v (h, d) = Some (h', d')" by (simp add: Append_def)
  from append_owned [OF assms(1) this] show ?thesis
    by (simp add: atLeastLessThanSuc)
next
  case (OpAppendLeft v)
  with assms have "appendLeft v (h, d) = Some (h', d')" by (simp add: AppendLeft_def)
  from appendLeft_owned [OF assms(1) this] show ?thesis
    by (simp add: atLeastLessThanSuc)
next
  case OpTryPop
  with assms obtain r where "tryPop (h, d) = Some (r, (h', d'))" by (auto simp: TryPop_def)
  from tryPop_owned [OF assms(1) this] show ?thesis by simp
next
  case OpTryPopLeft
  with assms obtain r where "tryPopLeft (h, d) = Some (r, (h', d'))" by (auto simp: TryPopLeft_def)
  from tryPopLeft_owned [OF assms(1) this] show ?thesis by simp
next
  case OpClear
  with assms show ?thesis by (auto simp: Clear_def owned_def frame_refl)
next
  case (OpRotate n)
  with assms have "Rotate n (h, d) = Some (h', d')" by simp
  from Rotate_owned [OF assms(1) this] show ?thesis by simp
qed

lemma run_owned:
  "owned S (h, d) \<Longrightarrow> run ops (h, d) = Some (h', d')
     \<Longrightarrow> owned (S \<union> {length h..<length h'}) (h', d') \<and> frame S h h'"
proof (induction ops arbitrary: S h d)
  case Nil
  then show ?case by (simp add: frame_refl)
next
  case (Cons x ops)
  from Cons.prems(2) obtain h1 d1 where a: "apply_op x (h, d) = Some (h1, d1)"
    and r: "run ops (h1, d1) = Some (h', d')"
    by (auto split: Option.bind_splits)
  note s1 = apply_op_owned [OF Cons.prems(1) a]
  note s2 = Cons.IH [OF conjunct1 [OF s1] r]
  have le: "length h \<le> length h1" "length h1 \<le> length h'"
    using s1 s2 by (auto simp: frame_def)
  then have "S \<union> {length h..<length h1} \<union> {length h1..<length h'} = S \<union> {length h..<length h'}"
    by auto
  with s1 s2 show ?case by (auto intro: frame_trans)
qed

lemma seg_ptr_in:
  "seg f h p as q \<Longrightarrow> a \<in> set as \<Longrightarrow> f (h ! a) = q \<or> ptr_in (set as) (f (h ! a))"
proof (induction as arbitrary: p)
  case Nil
  then show ?case by simp
next
  case (Cons b bs)
  show ?case
  proof (cases "a = b")
    case True
    with Cons.prems show ?thesis by (cases bs) auto
  next
    case False
    with Cons show ?thesis by (auto simp: ptr_in_insert)
  qed
qed

lemma dll_owned: "dll h d as \<Longrightarrow> owned (set as) (h, d)"
proof -
  assume a: "dll h d as"
  then have n: "seg node_next h (head d) as None" and p: "seg node_prev h (tail d) (rev as) None"
    by (simp_all add: dll_def)
  have "ptr_in (set as) (head d)" using n by (cases as) auto
  moreover have "ptr_in (set as) (tail d)" using p by (cases "rev as") (auto simp: ptr_in_def dest: arg_cong [where f = set])
  moreover have "closed (set as) h"
    unfolding closed_def
  proof (intro ballI conjI)
    fix b assume b: "b \<in> set as"
    show "b < length h" using seg_bound [OF n b] .
    show "ptr_in (set as) (node_next (h ! b))" using seg_ptr_in [OF n b] by auto
    show "ptr_in (set as) (node_prev (h ! b))" using seg_ptr_in [OF p, of b] b by auto
  qed
  ultimately show ?thesis by (simp add: owned_def)
qed

lemma dll_frame:
  assumes "dll h d as" "frame S h h'" "set as \<inter> S = {}"
  shows "dll h' d as \<and> vals h' as = vals h as"
proof -
  have "\<forall>a\<in>set as. h' ! a = h ! a"
    using assms dll_bound [OF assms(1)] by (auto simp: frame_def)
  moreover have "length h \<le> length h'" using assms(2) by (simp add: frame_def)
  ultimately show ?thesis
    using dll_cong [OF assms(1)] by (simp add: vals_def)
qed

lemma seg_frame:
  assumes "seg f h p as q" "frame S h h'" "set as \<inter> S = {}"
  shows "seg f h' p as q"
proof (rule seg_cong [OF assms(1)])
  show "\<forall>a\<in>set as. a < length h \<longrightarrow> a < length h' \<and> f (h' ! a) = f (h ! a)"
    using assms(2,3) by (auto simp: frame_def)
qed

subsection \<open>The copying loop\<close>

lemma copy_loop_dll:
  assumes "seg node_next h p as None" "dll h c bs" "set bs \<inter> set as = {}" "length as \<le> fuel"
    and "capacity c < 0 \<or> len c + int (length as) \<le> capacity c"
  shows "\<exists>h' c' bs'. copy_loop fuel p (h, c) = Some (h', c') \<and> dll h' c' (bs @ bs')
     \<and> vals h' (bs @ bs') = vals h bs @ vals h as \<and> frame (set bs) h h'
     \<and> set bs' \<subseteq> {length h..<length h'} \<and> capacity c' = capacity c"
  using assms
proof (induction as arbitrary: p h c bs fuel)
  case Nil
  then show ?case by (auto simp: frame_refl vals_def)
next
  case (Cons a as)
  from Cons.prems(4) obtain k where fuel: "fuel = Suc k" and k: "length as \<le> k"
    by (cases fuel) auto
  from Cons.prems(1) have p: "p = Some a" and a: "a < length h"
    and rest: "seg node_next h (node_next (h ! a)) as None" by auto
  have notfull: "\<not> (0 \<le> capacity c \<and> capacity c \<le> len c)"
    using Cons.prems(5) by auto
  obtain h1 c1 where ap: "append (node_value (h ! a)) (h, c) = Some (h1, c1)"
    and d1: "dll h1 c1 (bs @ [length h])" and c1: "capacity c1 = capacity c"
    and n1: "length h1 = Suc (length h)"
    and v1: "\<forall>b<length h. node_value (h1 ! b) = node_value (h ! b)"
    and v1': "node_value (h1 ! length h) = node_value (h ! a)"
    using append_dll [OF Cons.prems(2), of "node_value (h ! a)"] notfull by auto
  have fr: "frame (set bs) h h1"
    using append_owned [OF dll_owned [OF Cons.prems(2)] ap] by simp
  have abs: "a \<notin> set bs" using Cons.prems(3) by auto
  then have ha: "h1 ! a = h ! a" using fr a by (simp add: frame_def)
  have rest1: "seg node_next h1 (node_next (h1 ! a)) as None"
    unfolding ha using seg_frame [OF rest fr] Cons.prems(3) by auto
  have disj1: "set (bs @ [length h]) \<inter> set as = {}"
    using Cons.prems(3) seg_bound [OF rest] by auto
  have len1: "len c1 = len c + 1"
    using d1 Cons.prems(2) by (simp add: dll_def)
  have cap1: "capacity c1 < 0 \<or> len c1 + int (length as) \<le> capacity c1"
    using Cons.prems(5) c1 len1 by auto
  obtain h' c' bs' where cl: "copy_loop k (node_next (h1 ! a)) (h1, c1) = Some (h', c')"
    and d': "dll h' c' ((bs @ [length h]) @ bs')"
    and v': "vals h' ((bs @ [length h]) @ bs') = vals h1 (bs @ [length h]) @ vals h1 as"
    and fr': "frame (set (bs @ [length h])) h1 h'"
    and sub: "set bs' \<subseteq> {length h1..<length h'}" and c': "capacity c' = capacity c1"
    using Cons.IH [OF rest1 d1 disj1 k cap1] by blast
  have run: "copy_loop fuel p (h, c) = Some (h', c')"
    using fuel p a ap ha cl n1 by (simp add: deref_def)
  have le: "length h1 \<le> length h'" using fr' by (simp add: frame_def)
  have vb: "vals h1 bs = vals h bs"
    using v1 dll_bound [OF Cons.prems(2)] by (intro vals_eq) auto
  have va: "vals h1 as = vals h as"
    using v1 seg_bound [OF rest] by (intro vals_eq) auto
  have "vals h' (bs @ (length h # bs')) = vals h bs @ vals h (a # as)"
    using v' vb va v1' by (simp add: vals_def)
  moreover have "frame (set bs) h h'"
    using fr fr' n1 by (auto intro: frame_step)
  moreover have "set (length h # bs') \<subseteq> {length h..<length h'}"
    using sub n1 le by auto
  ultimately show ?case
    using run d' c' c1 by (intro exI [of _ h'] exI [of _ c'] exI [of _ "length h # bs'"]) simp
qed

subsection \<open>The structural invariant on well-formed lists\<close>

lemma follow_seg: "seg f h p as q \<Longrightarrow> follow f h p (length as) = Some (as, q)"
  by (induction as arbitrary: p) auto

lemma dll_structural_invariant:
  assumes "dll h d as"
  shows "structural_invariant (h, d)"
proof (cases "len d \<ge> 2")
  case False
  then show ?thesis by (simp add: structural_invariant_def)
next
  case True
  from assms have n: "seg node_next h (head d) as None"
    and p: "seg node_prev h (tail d) (rev as) None" and l: "nat (len d) = length as"
    by (simp_all add: dll_def)
  obtain a as' where as: "as = a # as'" using True l by (cases as) auto
  obtain b bs' where bs: "as = bs' @ [b]" using True l by (cases as rule: rev_cases) auto
  have "map_option node_prev (deref h (head d)) = Some None"
    using n p as by (auto simp: deref_def seg_append)
  moreover have "map_option node_next (deref h (tail d)) = Some None"
    using n p bs by (auto simp: deref_def seg_append)
  moreover have "follow node_next h (head d) (nat (len d)) = Some (as, None)"
    using follow_seg [OF n] l by simp
  moreover have "follow node_prev h (tail d) (nat (len d)) = Some (rev as, None)"
    using follow_seg [OF p] l by simp
  ultimately show ?thesis
    using True by (simp add: structural_invariant_def)
qed

lemma apply_op_dll:
  assumes "dll h d as" "\<not> isOverflowing d" "\<not> is_rotation x"
  shows "\<exists>h' d' as'. apply_op x (h, d) = Some (h', d') \<and> dll h' d' as' \<and> \<not> isOverflowing d'
     \<and> capacity d' = capacity d"
proof (cases x)
  case (OpAppend v)
  obtain h' d' as' where "append v (h, d) = Some (h', d')" "dll h' d' as'"
    "capacity d' = capacity d"
    "as' = (if 0 \<le> capacity d \<and> capacity d \<le> len d then tl (as @ [length h]) else as @ [length h])"
    using append_dll [OF assms(1), of v] by blast
  moreover from this assms(1,2) have "\<not> isOverflowing d'"
    by (auto simp: isOverflowing_iff dll_def split: if_splits)
  ultimately show ?thesis using OpAppend by (auto simp: Append_def)
next
  case (OpAppendLeft v)
  obtain h' d' as' where "appendLeft v (h, d) = Some (h', d')" "dll h' d' as'"
    "capacity d' = capacity d"
    "as' = (if 0 \<le> capacity d \<and> capacity d \<le> len d then butlast (length h # as) else length h # as)"
    using appendLeft_dll [OF assms(1), of v] by blast
  moreover from this assms(1,2) have "\<not> isOverflowing d'"
    by (auto simp: isOverflowing_iff dll_def split: if_splits)
  ultimately show ?thesis using OpAppendLeft by (auto simp: AppendLeft_def)
next
  case OpTryPop
  show ?thesis
  proof (cases as rule: rev_cases)
    case Nil
    with assms OpTryPop show ?thesis
      by (auto simp: TryPop_def tryPop_def dll_Nil query_defs intro!: exI [of _ "[]"])
  next
    case (snoc bs b)
    then obtain h' d' where "tryPop (h, d) = Some ((0, None), (h', d'))" "dll h' d' bs"
      "capacity d' = capacity d"
      using tryPop_dll [of h d bs b] assms(1) by blast
    moreover from this assms(1,2) snoc have "\<not> isOverflowing d'"
      by (auto simp: isOverflowing_iff dll_def)
    ultimately show ?thesis using OpTryPop by (auto simp: TryPop_def)
  qed
next
  case OpTryPopLeft
  show ?thesis
  proof (cases as)
    case Nil
    with assms OpTryPopLeft show ?thesis
      by (auto simp: TryPopLeft_def tryPopLeft_def dll_Nil query_defs intro!: exI [of _ "[]"])
  next
    case (Cons b bs)
    then obtain h' d' where "tryPopLeft (h, d) = Some ((0, None), (h', d'))" "dll h' d' bs"
      "capacity d' = capacity d"
      using tryPopLeft_dll [of h d b bs] assms(1) by blast
    moreover from this assms(1,2) Cons have "\<not> isOverflowing d'"
      by (auto simp: isOverflowing_iff dll_def)
    ultimately show ?thesis using OpTryPopLeft by (auto simp: TryPopLeft_def)
  qed
next
  case OpClear
  with assms show ?thesis
    by (auto simp: Clear_def dll_Nil isOverflowing_iff intro!: exI [of _ "[]"])
next
  case (OpRotate n)
  with assms(3) show ?thesis by simp
qed

lemma run_dll:
  assumes "dll h d as" "\<not> isOverflowing d" "\<forall>x\<in>set ops. \<not> is_rotation x"
  shows "\<exists>h' d' as'. run ops (h, d) = Some (h', d') \<and> dll h' d' as' \<and> \<not> isOverflowing d'
     \<and> capacity d' = capacity d"
  using assms
proof (induction ops arbitrary: h d as)
  case Nil
  then show ?case by auto
next
  case (Cons x ops)
  obtain h1 d1 as1 where "apply_op x (h, d) = Some (h1, d1)" "dll h1 d1 as1"
    "\<not> isOverflowing d1" "capacity d1 = capacity d"
    using apply_op_dll [OF Cons.prems(1,2), of x] Cons.prems(3) by auto
  with Cons.IH [of h1 d1 as1] Cons.prems(3) show ?case by auto
qed

subsection \<open>Lookup on a well-formed list\<close>

lemma walk_next_seg:
  "seg node_next h p as q \<Longrightarrow> i < length as \<Longrightarrow> walk_next h p i = Some (Some (as ! i))"
proof (induction as arbitrary: p i)
  case Nil
  then show ?case by simp
next
  case (Cons a as)
  then show ?case by (cases i) (auto simp: deref_def)
qed

lemma walk_prev_seg:
  "seg node_prev h p as q \<Longrightarrow> i < length as \<Longrightarrow> walk_prev h p i = Some (Some (as ! i))"
proof (induction as arbitrary: p i)
  case Nil
  then show ?case by simp
next
  case (Cons a as)
  then show ?case by (cases i) (auto simp: deref_def)
qed

lemma TryPeek_dll:
  assumes "dll h d as" "0 \<le> i" "i < len d"
  shows "TryPeek i (h, d) = Some ((vals h as ! nat i, None), (h, d))"
proof -
  from assms have n: "seg node_next h (head d) as None"
    and p: "seg node_prev h (tail d) (rev as) None" and l: "len d = int (length as)"
    by (simp_all add: dll_def)
  have i: "nat i < length as" using assms(2,3) l by simp
  then have b: "as ! nat i < length h" using seg_bound [OF n] by simp
  have v: "vals h as ! nat i = node_value (h ! (as ! nat i))"
    using i by (simp add: vals_def)
  show ?thesis
  proof (cases "i < len d div 2")
    case True
    then show ?thesis
      using assms(2,3) walk_next_seg [OF n i] b v
      by (simp add: TryPeek_def GetLen_def deref_def)
  next
    case False
    have k: "nat (len d - 1 - i) < length (rev as)" using assms(2,3) l by simp
    have "rev as ! nat (len d - 1 - i) = as ! nat i"
      using i l assms(2) by (simp add: rev_nth nat_diff_distrib) 
    then show ?thesis
      using False assms(2,3) walk_prev_seg [OF p k] b v
      by (simp add: TryPeek_def GetLen_def deref_def)
  qed
qed

subsection \<open>Copy of a well-formed list\<close>

text \<open>
  On a well-formed deque that is not overflowing \<^verbatim>\<open>Copy\<close> returns a deque of the same
  capacity and length that yields the same values in the same order. The source is as
  it was. The nodes \<open>bs\<close> of the copy are none of the nodes \<open>as\<close> of the source, and
  whatever sequence of public mutating operations then runs on one of the two deques,
  the other still is the same list of the same nodes with the same values.
\<close>

lemma Copy_dll:
  assumes "dll h d as" and "\<not> isOverflowing d"
  shows "\<exists>h' c bs. Copy (h, d) = Some (h', c)
     \<and> GetCapacity c = GetCapacity d \<and> GetLen c = GetLen d
     \<and> Values (h, d) = Some (vals h as)
     \<and> Values (h', c) = Values (h, d) \<and> Values (h', d) = Values (h, d)
     \<and> dll h' c bs \<and> dll h' d as \<and> set bs \<inter> set as = {}
     \<and> (\<forall>ops h2 c2. run ops (h', c) = Some (h2, c2)
           \<longrightarrow> dll h2 d as \<and> Values (h2, d) = Values (h, d))
     \<and> (\<forall>ops h2 d2. run ops (h', d) = Some (h2, d2)
           \<longrightarrow> dll h2 c bs \<and> Values (h2, c) = Values (h, d))"
proof -
  let ?c0 = "NewDeque (capacity d)"
  have n: "seg node_next h (head d) as None" and len: "len d = int (length as)"
    and dist: "distinct as"
    using assms(1) by (simp_all add: dll_def)
  have c0: "dll h ?c0 []" by (simp add: dll_Nil NewDeque_def)
  have cap: "capacity ?c0 < 0 \<or> len ?c0 + int (length as) \<le> capacity ?c0"
    using assms(2) len by (auto simp: isOverflowing_iff NewDeque_def)
  obtain h' c bs where cl: "copy_loop (length h) (head d) (h, ?c0) = Some (h', c)"
    and dc: "dll h' c ([] @ bs)" and vc: "vals h' ([] @ bs) = vals h [] @ vals h as"
    and fr: "frame (set []) h h'" and sub: "set bs \<subseteq> {length h..<length h'}"
    and cc: "capacity c = capacity ?c0"
    using copy_loop_dll [OF n c0 _ seg_length [OF n dist] cap] by auto
  have copy: "Copy (h, d) = Some (h', c)"
    using cl by (simp add: Copy_def)
  have dc': "dll h' c bs" and vc': "vals h' bs = vals h as"
    using dc vc by (simp_all add: vals_def)
  have src: "dll h' d as" and vs: "vals h' as = vals h as"
    using dll_frame [OF assms(1) fr] by simp_all
  have disj: "set bs \<inter> set as = {}"
    using sub dll_bound [OF assms(1)] by fastforce
  have V: "Values (h, d) = Some (vals h as)"
    using Values_dll [OF assms(1)] .
  have "length (vals h' bs) = length (vals h as)"
    using vc' by simp
  then have lenc: "len c = len d"
    using dll_len [OF dc'] len by (simp add: vals_def)
  have A: "dll h2 d as \<and> Values (h2, d) = Values (h, d)"
    if r: "run ops (h', c) = Some (h2, c2)" for ops h2 c2
  proof -
    have "frame (set bs) h' h2"
      using run_owned [OF dll_owned [OF dc'] r] by simp
    from dll_frame [OF src this] disj have "dll h2 d as" "vals h2 as = vals h' as"
      by auto
    then show ?thesis using Values_dll [of h2 d as] V vs by simp
  qed
  have B: "dll h2 c bs \<and> Values (h2, c) = Values (h, d)"
    if r: "run ops (h', d) = Some (h2, d2)" for ops h2 d2
  proof -
    have "frame (set as) h' h2"
      using run_owned [OF dll_owned [OF src] r] by simp
    from dll_frame [OF dc' this] disj have "dll h2 c bs" "vals h2 bs = vals h' bs"
      by auto
    then show ?thesis using Values_dll [of h2 c bs] V vc' by simp
  qed
  have "Values (h', c) = Values (h, d)" "Values (h', d) = Values (h, d)"
    using Values_dll [OF dc'] Values_dll [OF src] V vc' vs by simp_all
  with copy cc lenc V dc' src disj A B show ?thesis
    by (intro exI [of _ h'] exI [of _ c] exI [of _ bs]) (simp add: query_defs NewDeque_def)
qed

subsection \<open>Appends to a new deque\<close>

text \<open>
  The values \<open>vs\<close> are appended, one \<^verbatim>\<open>Append\<close> call each, to \<^verbatim>\<open>NewDeque(c)\<close>. All the
  calls return; the capacity is still \<open>c\<close>; the length is \<open>min (length vs) c\<close> when
  \<open>c \<ge> 0\<close> and \<open>length vs\<close> when the deque is unbounded; and the deque holds the last
  \<open>c\<close> of the values (all of them when unbounded). On the state so reached a further
  insertion overflows exactly when the deque is full. \<^verbatim>\<open>Append\<close> then drops exactly the
  element at the head, and \<^verbatim>\<open>AppendLeft\<close> exactly the element at the tail, and the
  length is the capacity when the call returns; when the deque is not full nothing is
  dropped and the length grows by one.
\<close>

lemma Append_sequence_new_deque:
  "\<exists>h' d' xs. run (map OpAppend vs) (h, NewDeque c) = Some (h', d')
      \<and> GetCapacity d' = c
      \<and> GetLen d' = (if c < 0 then int (length vs) else min (int (length vs)) c)
      \<and> xs = (if c < 0 then vs else drop (length vs - nat c) vs)
      \<and> Values (h', d') = Some xs
      \<and> (\<exists>h2 d2. Append v (h', d') = Some (h2, d2)
            \<and> (if IsFull d'
                then GetLen d2 = GetCapacity d2 \<and> Values (h2, d2) = Some (tl (xs @ [v]))
                else GetLen d2 = GetLen d' + 1 \<and> Values (h2, d2) = Some (xs @ [v])))
      \<and> (\<exists>h2 d2. AppendLeft v (h', d') = Some (h2, d2)
            \<and> (if IsFull d'
                then GetLen d2 = GetCapacity d2 \<and> Values (h2, d2) = Some (butlast (v # xs))
                else GetLen d2 = GetLen d' + 1 \<and> Values (h2, d2) = Some (v # xs)))"
proof -
  let ?d0 = "NewDeque c"
  let ?xs = "if c < 0 then vs else drop (length vs - nat c) vs"
  have d0: "dll h ?d0 []" and no: "\<not> isOverflowing ?d0"
    by (simp_all add: dll_Nil NewDeque_def isOverflowing_iff)
  obtain h' d' as' where r: "run (map OpAppend vs) (h, ?d0) = Some (h', d')"
    and d': "dll h' d' as'" and c': "capacity d' = capacity ?d0"
    and v': "vals h' as' = (if capacity ?d0 < 0 then vals h [] @ vs
          else drop (length (vals h [] @ vs) - nat (capacity ?d0)) (vals h [] @ vs))"
    using run_appends_dll [OF d0 no, of vs] by blast
  have cap: "capacity d' = c" using c' by (simp add: NewDeque_def)
  have v: "vals h' as' = ?xs"
    using v' by (simp add: vals_def NewDeque_def)
  have len: "len d' = int (length ?xs)"
    using dll_len [OF d'] v by simp
  then have len': "len d' = (if c < 0 then int (length vs) else min (int (length vs)) c)"
    by auto
  have full: "IsFull d' \<longleftrightarrow> 0 \<le> c \<and> len d' = c"
    using len' cap by (auto simp: IsFull_iff)
  obtain h1 d1 as1 where a1: "Append v (h', d') = Some (h1, d1)" and dl1: "dll h1 d1 as1"
    and c1: "capacity d1 = capacity d'"
    and v1: "vals h1 as1 = (if 0 \<le> capacity d' \<and> capacity d' \<le> len d'
                       then tl (vals h' as' @ [v]) else vals h' as' @ [v])"
    using Append_dll_vals [OF d', of v] by blast
  have A: "if IsFull d'
        then GetLen d1 = GetCapacity d1 \<and> Values (h1, d1) = Some (tl (?xs @ [v]))
        else GetLen d1 = GetLen d' + 1 \<and> Values (h1, d1) = Some (?xs @ [v])"
    using dll_len [OF dl1] Values_dll [OF dl1] v1 c1 cap len
    unfolding v IsFull_iff GetLen_def GetCapacity_def by (auto split: if_splits)
  obtain h2 d2 as2 where a2: "AppendLeft v (h', d') = Some (h2, d2)" and dl2: "dll h2 d2 as2"
    and c2: "capacity d2 = capacity d'"
    and v2: "vals h2 as2 = (if 0 \<le> capacity d' \<and> capacity d' \<le> len d'
                       then butlast (v # vals h' as') else v # vals h' as')"
    using AppendLeft_dll_vals [OF d', of v] by blast
  have B: "if IsFull d'
        then GetLen d2 = GetCapacity d2 \<and> Values (h2, d2) = Some (butlast (v # ?xs))
        else GetLen d2 = GetLen d' + 1 \<and> Values (h2, d2) = Some (v # ?xs)"
    using dll_len [OF dl2] Values_dll [OF dl2] v2 c2 cap len
    unfolding v IsFull_iff GetLen_def GetCapacity_def by (auto split: if_splits)
  have A': "\<exists>h2 d2. Append v (h', d') = Some (h2, d2)
            \<and> (if IsFull d'
                then GetLen d2 = GetCapacity d2 \<and> Values (h2, d2) = Some (tl (?xs @ [v]))
                else GetLen d2 = GetLen d' + 1 \<and> Values (h2, d2) = Some (?xs @ [v]))"
    using a1 A by blast
  have B': "\<exists>h2 d2. AppendLeft v (h', d') = Some (h2, d2)
            \<and> (if IsFull d'
                then GetLen d2 = GetCapacity d2 \<and> Values (h2, d2) = Some (butlast (v # ?xs))
                else GetLen d2 = GetLen d' + 1 \<and> Values (h2, d2) = Some (v # ?xs))"
    using a2 B by blast
  show ?thesis
  proof (rule exI [of _ h'], rule exI [of _ d'], rule exI [of _ ?xs], intro conjI)
    show "run (map OpAppend vs) (h, NewDeque c) = Some (h', d')" by (rule r)
    show "GetCapacity d' = c" using cap by (simp add: GetCapacity_def)
    show "GetLen d' = (if c < 0 then int (length vs) else min (int (length vs)) c)"
      using len' by (simp add: GetLen_def)
    show "?xs = ?xs" by (rule refl)
    show "Values (h', d') = Some ?xs" using Values_dll [OF d'] v by simp
    show "\<exists>h2 d2. Append v (h', d') = Some (h2, d2)
            \<and> (if IsFull d'
                then GetLen d2 = GetCapacity d2 \<and> Values (h2, d2) = Some (tl (?xs @ [v]))
                else GetLen d2 = GetLen d' + 1 \<and> Values (h2, d2) = Some (?xs @ [v]))"
      by (rule A')
    show "\<exists>h2 d2. AppendLeft v (h', d') = Some (h2, d2)
            \<and> (if IsFull d'
                then GetLen d2 = GetCapacity d2 \<and> Values (h2, d2) = Some (butlast (v # ?xs))
                else GetLen d2 = GetLen d' + 1 \<and> Values (h2, d2) = Some (v # ?xs))"
      by (rule B')
  qed
qed

lemma Append_sequence_new_deque_example:
  "\<exists>h' d'. run (map OpAppend [1, 2, 3::int]) ([], NewDeque 2) = Some (h', d')
      \<and> GetLen d' = 2 \<and> Values (h', d') = Some [2, 3] \<and> IsFull d'
      \<and> (\<exists>h2 d2. Append 4 (h', d') = Some (h2, d2)
            \<and> GetLen d2 = GetCapacity d2 \<and> Values (h2, d2) = Some [3, 4])
      \<and> (\<exists>h2 d2. AppendLeft 4 (h', d') = Some (h2, d2)
            \<and> GetLen d2 = GetCapacity d2 \<and> Values (h2, d2) = Some [4, 2])"
proof -
  obtain h' d' xs where r: "run (map OpAppend [1, 2, 3::int]) ([], NewDeque 2) = Some (h', d')"
    and c: "GetCapacity d' = 2"
    and l: "GetLen d' = (if (2::int) < 0 then int (length [1, 2, 3::int])
              else min (int (length [1, 2, 3::int])) 2)"
    and xs: "xs = (if (2::int) < 0 then [1, 2, 3::int] else drop (length [1, 2, 3::int] - nat 2) [1, 2, 3])"
    and v: "Values (h', d') = Some xs"
    and a: "\<exists>h2 d2. Append 4 (h', d') = Some (h2, d2)
            \<and> (if IsFull d'
                then GetLen d2 = GetCapacity d2 \<and> Values (h2, d2) = Some (tl (xs @ [4]))
                else GetLen d2 = GetLen d' + 1 \<and> Values (h2, d2) = Some (xs @ [4]))"
    and b: "\<exists>h2 d2. AppendLeft 4 (h', d') = Some (h2, d2)
            \<and> (if IsFull d'
                then GetLen d2 = GetCapacity d2 \<and> Values (h2, d2) = Some (butlast (4 # xs))
                else GetLen d2 = GetLen d' + 1 \<and> Values (h2, d2) = Some (4 # xs))"
    using Append_sequence_new_deque [of "[1, 2, 3::int]" "[]" 2 4] by blast
  have xs': "xs = [2, 3]" using xs by simp
  have l': "GetLen d' = 2" using l by simp
  have f: "IsFull d'" using l' c by (simp add: IsFull_def IsUnlimited_def)
  from r l' v a b f show ?thesis unfolding xs' by auto
qed

section \<open>The claims\<close>

text \<open>
  C1 (the code departs from it). The claim: on a non-empty deque \<^verbatim>\<open>TryPop\<close> returns the
  former tail's value and \<^verbatim>\<open>TryPopLeft\<close> the former head's. The code returns the zero
  value of the element type instead (\<open>tryPop_value_zero\<close>, \<open>tryPopLeft_value_zero\<close>):
  after \<^verbatim>\<open>Append(5)\<close>, \<^verbatim>\<open>Append(7)\<close> on an unbounded deque of integers, whose contents
  are then 5, 7, both calls return 0 without an error.
\<close>

theorem TryPop_returns_zero_value:
  "Option.bind (run [OpAppend (5::int), OpAppend 7] ([], NewDeque (- 1))) Values = Some [5, 7]
   \<and> map_option fst (Option.bind (run [OpAppend (5::int), OpAppend 7] ([], NewDeque (- 1))) TryPop)
       = Some (0, None)
   \<and> map_option fst (Option.bind (run [OpAppend (5::int), OpAppend 7] ([], NewDeque (- 1))) TryPopLeft)
       = Some (0, None)"
  by code_simp

text \<open>
  C2 (the code departs from it). The claim: \<^verbatim>\<open>Rotate(n)\<close> acts as \<open>n mod L\<close> single steps,
  so \<^verbatim>\<open>Rotate(L)\<close> leaves the order as it is. On the deque 1, 2 (length 2) the call
  \<^verbatim>\<open>Rotate(2)\<close> does not return: the first \<^verbatim>\<open>rotateRight\<close> leaves the \<^verbatim>\<open>prev\<close> link of the
  new tail \<^verbatim>\<open>nil\<close>, and the second one dereferences it.
\<close>

theorem Rotate_full_turn_panics:
  "Option.bind (run [OpAppend (1::int), OpAppend 2] ([], NewDeque (- 1))) Values = Some [1, 2]
   \<and> run [OpAppend (1::int), OpAppend 2, OpRotate 2] ([], NewDeque (- 1)) = None"
  by code_simp

text \<open>
  C3 (the code departs from it). The claim: the structural invariant holds after every
  public operation. It holds after 1, 2, 3 have been appended to an unbounded deque, and
  it fails after the \<^verbatim>\<open>Rotate(1)\<close> that follows: the \<^verbatim>\<open>prev\<close> chain from the new tail
  ends after two nodes, because \<^verbatim>\<open>rotateRight\<close> leaves the \<^verbatim>\<open>prev\<close> link of the old head
  \<^verbatim>\<open>nil\<close>. (By \<open>run_dll\<close> and \<open>dll_structural_invariant\<close> above, every sequence of
  the other public operations keeps the invariant.)
\<close>

theorem Rotate_breaks_structural_invariant:
  "map_option structural_invariant
      (run [OpAppend (1::int), OpAppend 2, OpAppend 3] ([], NewDeque (- 1))) = Some True
   \<and> map_option structural_invariant
      (run [OpAppend (1::int), OpAppend 2, OpAppend 3, OpRotate 1] ([], NewDeque (- 1))) = Some False"
  by code_simp

text \<open>
  C4 (the code departs from it). The claim: on every deque reachable through the public
  operations, \<^verbatim>\<open>Rotate\<close> included, \<^verbatim>\<open>TryPeek(i)\<close> with \<open>0 \<le> i < length\<close> returns the
  element at position \<open>i\<close>. After 1, 2, 3 have been appended and \<^verbatim>\<open>Rotate(-1)\<close> has run,
  the deque reads 2, 3, 1 from its head, and \<^verbatim>\<open>TryPeek(1)\<close> does not return: it walks
  back from the tail, whose \<^verbatim>\<open>prev\<close> link \<^verbatim>\<open>rotateLeft\<close> left \<^verbatim>\<open>nil\<close>.
\<close>

theorem TryPeek_after_Rotate_panics:
  "Option.bind (run [OpAppend (1::int), OpAppend 2, OpAppend 3, OpRotate (- 1)] ([], NewDeque (- 1)))
       Values = Some [2, 3, 1]
   \<and> Option.bind (run [OpAppend (1::int), OpAppend 2, OpAppend 3, OpRotate (- 1)] ([], NewDeque (- 1)))
       (TryPeek 1) = None"
  by code_simp

text \<open>
  C5 (the code departs from it). The claim: \<open>N\<close> appends to \<^verbatim>\<open>NewDeque(C)\<close> leave the
  length \<open>min N C\<close> (\<open>N\<close> when unbounded), and whenever a bounded insertion overflows,
  exactly one element is evicted from the opposite end, so that the length is the capacity
  when the insertion returns. The first part holds, and so does the second on every
  deque that appends alone have built (\<open>Append_sequence_new_deque\<close> above) and on every
  well-formed one (\<open>Append_dll_vals\<close>, \<open>AppendLeft_dll_vals\<close>). It fails on full deques
  that a rotation has passed over. After \<^verbatim>\<open>Append(1)\<close>, \<^verbatim>\<open>Append(2)\<close>, \<^verbatim>\<open>Rotate(-1)\<close> on
  \<^verbatim>\<open>NewDeque(2)\<close> the deque reads 2, 1 and is full; \<^verbatim>\<open>AppendLeft(3)\<close> overflows, and the
  eviction in \<^verbatim>\<open>tryPop\<close> dereferences the \<^verbatim>\<open>prev\<close> link of the tail, which \<^verbatim>\<open>rotateLeft\<close>
  left \<^verbatim>\<open>nil\<close>: the call does not return. After \<^verbatim>\<open>Append(1)\<close>, \<^verbatim>\<open>Append(2)\<close>,
  \<^verbatim>\<open>Rotate(-1)\<close>, \<^verbatim>\<open>Append(3)\<close>, \<^verbatim>\<open>Rotate(-1)\<close> on \<^verbatim>\<open>NewDeque(3)\<close> the deque reads
  1, 3, 2 and is full; \<^verbatim>\<open>AppendLeft(4)\<close> returns with the length 3, but the deque then
  reads 4, 1: the eviction has followed a stale \<^verbatim>\<open>prev\<close> link and dropped two elements.
\<close>

theorem insertion_overflow_after_Rotate:
  "Option.bind (run [OpAppend (1::int), OpAppend 2, OpRotate (- 1)] ([], NewDeque 2)) Values
       = Some [2, 1]
   \<and> map_option (\<lambda>s. IsFull (snd s) \<and> \<not> isOverflowing (snd s))
        (run [OpAppend (1::int), OpAppend 2, OpRotate (- 1)] ([], NewDeque 2)) = Some True
   \<and> run [OpAppend (1::int), OpAppend 2, OpRotate (- 1), OpAppendLeft 3] ([], NewDeque 2) = None
   \<and> Option.bind
        (run [OpAppend (1::int), OpAppend 2, OpRotate (- 1), OpAppend 3, OpRotate (- 1)]
           ([], NewDeque 3)) Values = Some [1, 3, 2]
   \<and> map_option (\<lambda>s. IsFull (snd s) \<and> \<not> isOverflowing (snd s))
        (run [OpAppend (1::int), OpAppend 2, OpRotate (- 1), OpAppend 3, OpRotate (- 1)]
           ([], NewDeque 3)) = Some True
   \<and> Option.bind
        (run [OpAppend (1::int), OpAppend 2, OpRotate (- 1), OpAppend 3, OpRotate (- 1),
              OpAppendLeft 4] ([], NewDeque 3)) Values = Some [4, 1]
   \<and> map_option (\<lambda>s. GetLen (snd s))
        (run [OpAppend (1::int), OpAppend 2, OpRotate (- 1), OpAppend 3, OpRotate (- 1),
              OpAppendLeft 4] ([], NewDeque 3)) = Some 3"
  by code_simp


text \<open>
  C6. \<^verbatim>\<open>TryPop\<close> and \<^verbatim>\<open>TryPopLeft\<close> return an error exactly when the length is 0; the
  error is then a \<^verbatim>\<open>PopError\<close>, the value returned with it is the zero value, and the
  state (length, head, tail and every node) is what it was. So on a deque that is not
  empty no error is returned, and on a well-formed one that is not empty the call
  returns without an error.
\<close>

theorem TryPop_error_iff_empty:
  "(TryPop (h, d) = Some ((v, Some e), s')
      \<longleftrightarrow> GetLen d = 0 \<and> v = 0 \<and> e = PopError \<and> s' = (h, d))
   \<and> (TryPopLeft (h, d) = Some ((v, Some e), s')
      \<longleftrightarrow> GetLen d = 0 \<and> v = 0 \<and> e = PopError \<and> s' = (h, d))
   \<and> (dll h d as \<and> as \<noteq> [] \<longrightarrow>
        (\<exists>s1. TryPop (h, d) = Some ((0, None), s1))
        \<and> (\<exists>s2. TryPopLeft (h, d) = Some ((0, None), s2)))"
proof (intro conjI impI)
  show "TryPop (h, d) = Some ((v, Some e), s')
      \<longleftrightarrow> GetLen d = 0 \<and> v = 0 \<and> e = PopError \<and> s' = (h, d)"
    by (auto simp: TryPop_def tryPop_def Let_def split: Option.bind_splits prod.splits if_splits)
  show "TryPopLeft (h, d) = Some ((v, Some e), s')
      \<longleftrightarrow> GetLen d = 0 \<and> v = 0 \<and> e = PopError \<and> s' = (h, d)"
    by (auto simp: TryPopLeft_def tryPopLeft_def Let_def
        split: Option.bind_splits prod.splits if_splits)
next
  assume a: "dll h d as \<and> as \<noteq> []"
  then obtain b bs where "as = bs @ [b]" by (cases as rule: rev_cases) auto
  with a show "\<exists>s1. TryPop (h, d) = Some ((0, None), s1)"
    using tryPop_dll [of h d bs b] by (auto simp: TryPop_def)
  from a obtain c cs where "as = c # cs" by (cases as) auto
  with a show "\<exists>s2. TryPopLeft (h, d) = Some ((0, None), s2)"
    using tryPopLeft_dll [of h d c cs] by (auto simp: TryPopLeft_def)
qed

theorem TryPop_error_iff_empty_witness:
  "TryPop ([], NewDeque 3) = Some ((0::int, Some PopError), ([], NewDeque 3))
   \<and> TryPopLeft ([], NewDeque 3) = Some ((0::int, Some PopError), ([], NewDeque 3))
   \<and> dll [\<lparr>node_value = 4::int, node_next = None, node_prev = None\<rparr>]
        \<lparr>head = Some 0, tail = Some 0, len = 1, capacity = 3\<rparr> [0]
   \<and> (\<exists>s1. TryPop ([\<lparr>node_value = 4::int, node_next = None, node_prev = None\<rparr>],
         \<lparr>head = Some 0, tail = Some 0, len = 1, capacity = 3\<rparr>) = Some ((0, None), s1))"
  using TryPop_error_iff_empty [of "[]" "NewDeque 3" "0::int" PopError "([], NewDeque 3)" "[]"]
    TryPop_error_iff_empty [of "[\<lparr>node_value = 4::int, node_next = None, node_prev = None\<rparr>]"
      "\<lparr>head = Some 0, tail = Some 0, len = 1, capacity = 3\<rparr>" 0 PopError "([], NewDeque 3)" "[0]"]
  by (simp add: dll_def GetLen_def NewDeque_def)

text \<open>
  C7. \<^verbatim>\<open>TryPeek(index)\<close> returns an error exactly when \<open>index < 0\<close> or
  \<open>index \<ge> length\<close>; the error is then the \<^verbatim>\<open>PeekError\<close> that carries this index, the
  value returned with it is the zero value, and the state is what it was.
\<close>

theorem TryPeek_error_iff_out_of_bounds:
  "TryPeek index (h, d) = Some ((v, Some e), s')
     \<longleftrightarrow> (index < 0 \<or> index \<ge> GetLen d) \<and> v = 0 \<and> e = PeekError index \<and> s' = (h, d)"
  by (auto simp: TryPeek_def split: Option.bind_splits)


text \<open>
  C9 (the code departs from it). The claim: for every deque \<^verbatim>\<open>Copy\<close> returns a deque of
  the same length with the same elements. After \<^verbatim>\<open>Append(1)\<close>, \<^verbatim>\<open>Append(2)\<close>,
  \<^verbatim>\<open>Rotate(-1)\<close>, \<^verbatim>\<open>Append(3)\<close>, \<^verbatim>\<open>Rotate(-1)\<close>, \<^verbatim>\<open>TryPop()\<close> on an unbounded deque,
  every call having returned, the deque reports the length 2 while only the node of 1
  hangs on its \<^verbatim>\<open>next\<close> chain: \<^verbatim>\<open>TryPop\<close> has followed a \<^verbatim>\<open>prev\<close> link that
  \<^verbatim>\<open>rotateLeft\<close> left stale. \<^verbatim>\<open>Copy\<close> of this deque returns a deque of length 1. (On a
  well-formed deque \<^verbatim>\<open>Copy\<close> does what the claim says: \<open>Copy_dll\<close> above.)
\<close>

theorem Copy_after_Rotate_differs:
  "map_option (\<lambda>s. GetLen (snd s))
      (run [OpAppend (1::int), OpAppend 2, OpRotate (- 1), OpAppend 3, OpRotate (- 1), OpTryPop]
         ([], NewDeque (- 1))) = Some 2
   \<and> Option.bind
      (run [OpAppend (1::int), OpAppend 2, OpRotate (- 1), OpAppend 3, OpRotate (- 1), OpTryPop]
         ([], NewDeque (- 1))) Values = Some [1]
   \<and> map_option (\<lambda>s. GetLen (snd s)) (Option.bind
      (run [OpAppend (1::int), OpAppend 2, OpRotate (- 1), OpAppend 3, OpRotate (- 1), OpTryPop]
         ([], NewDeque (- 1))) Copy) = Some 1"
  by code_simp

text \<open>
  C10. A deque made by \<^verbatim>\<open>NewDeque(0)\<close> is full and empty at once in every state that
  the public mutating operations reach from it, and each of these operations returns.
\<close>

theorem capacity_zero_full_and_empty:
  "\<exists>h' d'. run ops (h, NewDeque 0) = Some (h', d') \<and> IsFull d' \<and> IsEmpty d'"
proof -
  obtain h' where "run ops (h, NewDeque 0) = Some (h', NewDeque 0)"
    using run_capacity0 by blast
  then show ?thesis
    by (simp add: NewDeque_def query_defs)
qed

end
